theory Spec2Isabelle
  imports Complex_Main
begin

section \<open>Text wrapping (system/ui/text.py, wrap_text)\<close>

text \<open>
  A Python \<^verbatim>\<open>str\<close> is modelled as a \<^typ>\<open>string\<close> whose characters are the code
  points below 256. \<open>isspace\<close> is Python's \<^verbatim>\<open>str.isspace\<close> on one character, which is
  also what \<^verbatim>\<open>\s\<close> matches in \<^verbatim>\<open>re\<close> on a \<^verbatim>\<open>str\<close> pattern and what
  \<^verbatim>\<open>strip\<close>/\<^verbatim>\<open>rstrip\<close> remove: tab, line feed, vertical tab, form feed, carriage
  return, the four separators 0x1C..0x1F, space, NEL (0x85) and the no-break space (0xA0).
\<close>

definition whitespace :: "char list" where
  "whitespace = [CHR 0x09, CHR 0x0A, CHR 0x0B, CHR 0x0C, CHR 0x0D,
                 CHR 0x1C, CHR 0x1D, CHR 0x1E, CHR 0x1F, CHR 0x20, CHR 0x85, CHR 0xA0]"

definition isspace :: "char \<Rightarrow> bool" where
  "isspace c = (c \<in> set whitespace)"

text \<open>\<^verbatim>\<open>text.split("\n")\<close>: the pieces between line feeds; never an empty list.\<close>

fun split_acc :: "string \<Rightarrow> string \<Rightarrow> string list" where
  "split_acc acc [] = [acc]"
| "split_acc acc (c # cs) =
     (if c = CHR 0x0A then acc # split_acc [] cs else split_acc (acc @ [c]) cs)"

definition split_nl :: "string \<Rightarrow> string list" where
  "split_nl text = split_acc [] text"

text \<open>\<^verbatim>\<open>s.rstrip()\<close> and \<^verbatim>\<open>s.strip()\<close>.\<close>

definition rstrip :: "string \<Rightarrow> string" where
  "rstrip s = rev (dropWhile isspace (rev s))"

definition strip :: "string \<Rightarrow> string" where
  "strip s = dropWhile isspace (rstrip s)"

text \<open>\<^verbatim>\<open>re.match(r"^\s*", paragraph).group()\<close>: the leading run of whitespace.\<close>

definition indent_of :: "string \<Rightarrow> string" where
  "indent_of paragraph = takeWhile isspace paragraph"

text \<open>
  \<^verbatim>\<open>re.split("(\s+)", s)\<close>: the text before each maximal run of whitespace, the run itself
  (the captured group), and so on; the last element is the text after the last run. The
  result alternates word, separator, word, ..., word and has odd length; the first and
  the last word may be empty.
\<close>

function re_split_ws :: "string \<Rightarrow> string list" where
  "re_split_ws s =
     (let word = takeWhile (\<lambda>c. \<not> isspace c) s;
          r = dropWhile (\<lambda>c. \<not> isspace c) s
      in if r = [] then [word]
         else word # takeWhile isspace r # re_split_ws (dropWhile isspace r))"
  by pat_completeness auto
termination
proof (relation "measure length")
  show "wf (measure length)" by simp
next
  fix s :: string and word r
  assume r: "r = dropWhile (\<lambda>c. \<not> isspace c) s" and ne: "r \<noteq> []"
  from ne obtain c cs where rc: "r = c # cs" by (cases r) auto
  have "dropWhile (\<lambda>c. \<not> isspace c) s \<noteq> []" using r ne by blast
  then have "\<not> \<not> isspace (hd (dropWhile (\<lambda>c. \<not> isspace c) s))"
    by (rule hd_dropWhile)
  then have "isspace (hd r)" unfolding r by blast
  then have "isspace c" unfolding rc by simp
  then have "dropWhile isspace (c # cs) = dropWhile isspace cs" by simp
  then have "length (dropWhile isspace (c # cs)) \<le> length cs"
    by (simp add: length_dropWhile_le)
  moreover have "length (c # cs) \<le> length s"
    using r rc length_dropWhile_le [of "\<lambda>c. \<not> isspace c" s] by metis
  ultimately have "length (dropWhile isspace (c # cs)) < length s" by simp
  then show "(dropWhile isspace r, s) \<in> measure length" unfolding rc by simp
qed

declare re_split_ws.simps [simp del]

text \<open>
  The \<^verbatim>\<open>while len(words)\<close> loop. Each round pops a word and, when one is left, the
  separator after it; \<open>current_line\<close> and \<open>lines\<close> are the loop's two variables, returned
  updated. The measurement \<^verbatim>\<open>rl.measure_text_ex(font, s, font_size, 0).x\<close> is the
  parameter \<open>measure_text\<close> (the font is fixed by the application).
\<close>

fun wrap_loop ::
  "(string \<Rightarrow> 'f \<Rightarrow> 'w::linorder) \<Rightarrow> 'f \<Rightarrow> 'w \<Rightarrow> string list \<Rightarrow> string \<Rightarrow> string list
     \<Rightarrow> string \<times> string list" where
  "wrap_loop measure_text font_size max_width [] current_line lines = (current_line, lines)"
| "wrap_loop measure_text font_size max_width [word] current_line lines =
     (let test_line = current_line @ word @ []
      in if measure_text test_line font_size \<le> max_width
         then wrap_loop measure_text font_size max_width [] test_line lines
         else wrap_loop measure_text font_size max_width [] (word @ '' '') (lines @ [current_line]))"
| "wrap_loop measure_text font_size max_width (word # sep # words) current_line lines =
     (let test_line = current_line @ word @ sep
      in if measure_text test_line font_size \<le> max_width
         then wrap_loop measure_text font_size max_width words test_line lines
         else wrap_loop measure_text font_size max_width words (word @ '' '') (lines @ [current_line]))"

text \<open>The body of \<^verbatim>\<open>for paragraph in text.split("\n")\<close>, from \<open>lines\<close> to the new \<open>lines\<close>.\<close>

definition wrap_paragraph ::
  "(string \<Rightarrow> 'f \<Rightarrow> 'w::linorder) \<Rightarrow> 'f \<Rightarrow> 'w \<Rightarrow> string list \<Rightarrow> string \<Rightarrow> string list" where
  "wrap_paragraph measure_text font_size max_width lines paragraph =
     (if strip paragraph = [] then (if lines \<noteq> [] then lines @ [[]] else lines)
      else
        let indent = indent_of paragraph;
            words = re_split_ws (drop (length indent) paragraph);
            (current_line, lines') =
               wrap_loop measure_text font_size max_width words indent lines;
            current_line' = rstrip current_line
        in if current_line' \<noteq> [] then lines' @ [current_line'] else lines')"

definition wrap_text ::
  "(string \<Rightarrow> 'f \<Rightarrow> 'w::linorder) \<Rightarrow> string \<Rightarrow> 'f \<Rightarrow> 'w \<Rightarrow> string list" where
  "wrap_text measure_text text font_size max_width =
     foldl (wrap_paragraph measure_text font_size max_width) [] (split_nl text)"

text \<open>
  A concrete measurement for examples: a fixed-pitch font in which every character
  advances by the font size.
\<close>

definition fixed_pitch :: "string \<Rightarrow> nat \<Rightarrow> nat" where
  "fixed_pitch s font_size = font_size * length s"

subsection \<open>Words of a text\<close>

text \<open>
  The words of a string are its maximal runs of characters that are not whitespace, in
  order (Python's \<^verbatim>\<open>s.split()\<close>). \<open>words_acc\<close> scans the string with the
  word read so far.
\<close>

definition wd :: "string \<Rightarrow> string list" where
  "wd w = (if w = [] then [] else [w])"

fun words_acc :: "string \<Rightarrow> string \<Rightarrow> string list" where
  "words_acc acc [] = wd acc"
| "words_acc acc (c # cs) =
     (if isspace c then wd acc @ words_acc [] cs else words_acc (acc @ [c]) cs)"

definition words_of :: "string \<Rightarrow> string list" where
  "words_of s = words_acc [] s"

text \<open>
  The shape of what \<open>re_split_ws\<close> returns on a string that does not start with
  whitespace: words free of whitespace (only the last may be empty) alternating with
  non-empty runs of whitespace.
\<close>

fun tok_ok :: "string list \<Rightarrow> bool" where
  "tok_ok [] = True"
| "tok_ok [w] = (\<forall>c\<in>set w. \<not> isspace c)"
| "tok_ok (w # sep # toks) =
     (w \<noteq> [] \<and> (\<forall>c\<in>set w. \<not> isspace c) \<and> sep \<noteq> [] \<and> (\<forall>c\<in>set sep. isspace c) \<and> tok_ok toks)"

text \<open>The display lines as one text again: \<^verbatim>\<open>"\n".join(lines)\<close>.\<close>

fun join_lines :: "string list \<Rightarrow> string" where
  "join_lines [] = []"
| "join_lines [l] = l"
| "join_lines (l # l' # ls) = l @ [CHR 0x0A] @ join_lines (l' # ls)"

section \<open>The renderer (TextWindowRenderer)\<close>

text \<open>The module's constants.\<close>

definition MARGIN :: int where "MARGIN = 8"

definition FONT_SIZE :: int where "FONT_SIZE = 64"

definition LINE_HEIGHT :: int where "LINE_HEIGHT = 72"

text \<open>
  The fields of \<^verbatim>\<open>rl.Rectangle\<close> and of the scroll panel's \<^verbatim>\<open>_offset\<close> are C
  floats (IEEE binary32). The window's width and height are integers, so every number
  this constructor stores is an integer, and the model keeps the stored values as
  integers. \<open>f32\<close> is what a store into a float field does to an integer: the nearest
  number with a 24-bit significand, ties to the even significand. A Python \<^verbatim>\<open>int\<close>
  reaches the field through a C double, and a field read back is a double again: both
  are exact for integers of magnitude below \<open>2 ^ 53\<close>, which is the range the model
  covers (72 times a line count stays far below it). \<open>bitlen n\<close> is the number of
  binary digits of \<open>n\<close>.
\<close>

fun bitlen :: "nat \<Rightarrow> nat" where
  "bitlen n = (if n = 0 then 0 else Suc (bitlen (n div 2)))"

declare bitlen.simps [simp del]

definition f32 :: "int \<Rightarrow> int" where
  "f32 x =
     (let a = nat \<bar>x\<bar>;
          e = bitlen a - 24;
          q = a div 2 ^ e;
          r = a mod 2 ^ e;
          m = (if 2 ^ e < 2 * r \<or> (2 * r = 2 ^ e \<and> odd q) then q + 1 else q)
      in sgn x * int (m * 2 ^ e))"

text \<open>\<^verbatim>\<open>rl.Rectangle(x, y, width, height)\<close>: four float fields.\<close>

record rectangle =
  rect_x :: int
  rect_y :: int
  rect_width :: int
  rect_height :: int

definition Rectangle :: "int \<Rightarrow> int \<Rightarrow> int \<Rightarrow> int \<Rightarrow> rectangle" where
  "Rectangle x y w h = \<lparr>rect_x = f32 x, rect_y = f32 y, rect_width = f32 w, rect_height = f32 h\<rparr>"

text \<open>
  The scroll panel is a collaborator that is not part of this module; of its state the
  constructor of the renderer writes \<^verbatim>\<open>_offset.y\<close> only, a float field. The panel that
  \<^verbatim>\<open>GuiScrollPanel(show_vertical_scroll_bar=True)\<close> returns is a parameter of the model.
\<close>

record gui_scroll_panel =
  offset_x :: int
  offset_y :: int

record text_window_renderer =
  textarea_rect :: rectangle
  wrapped_lines :: "string list"
  content_rect :: rectangle
  scroll_panel :: gui_scroll_panel

text \<open>
  \<^verbatim>\<open>TextWindowRenderer.__init__\<close>; \<open>app_width\<close> and \<open>app_height\<close> are
  \<^verbatim>\<open>gui_app.width\<close> and \<^verbatim>\<open>gui_app.height\<close>. The measurement returns a width in
  pixels, a real number.
\<close>

definition TextWindowRenderer_init ::
  "(string \<Rightarrow> int \<Rightarrow> real) \<Rightarrow> int \<Rightarrow> int \<Rightarrow> gui_scroll_panel \<Rightarrow> string
     \<Rightarrow> text_window_renderer" where
  "TextWindowRenderer_init measure_text app_width app_height new_panel text =
     (let textarea = Rectangle MARGIN 0 (app_width - MARGIN) app_height;
          wrapped = wrap_text measure_text text FONT_SIZE (of_int (rect_width textarea - 20));
          content = Rectangle 0 0 (rect_width textarea - 20) (int (length wrapped) * LINE_HEIGHT);
          panel = new_panel\<lparr>offset_y :=
                    f32 (- max (rect_height content - rect_height textarea) 0)\<rparr>
      in \<lparr>textarea_rect = textarea, wrapped_lines = wrapped, content_rect = content,
          scroll_panel = panel\<rparr>)"

text \<open>The fixed-pitch measurement again, in pixels.\<close>

definition fixed_pitch_px :: "string \<Rightarrow> int \<Rightarrow> real" where
  "fixed_pitch_px s font_size = of_int font_size * real (length s)"

section \<open>The session (TextWindow)\<close>

text \<open>
  What the worker thread and \<open>close\<close> do to the outside is recorded as a list of
  events, in order.
\<close>

datatype event =
  InitWindow string | RendererPublished | RenderCalled | CloseWindow
  | StopEventSet | ThreadJoin | WarningPrinted

text \<open>The three ways out of the render loop.\<close>

datatype loop_exit = StopFlagSet | FramesEnded | RenderRaised

text \<open>
  One tick of \<^verbatim>\<open>gui_app.render()\<close>: whether the stop event is set when the loop body
  tests it, and whether \<^verbatim>\<open>renderer.render()\<close> raises in this frame. The list of
  frames is what the generator yields until the loop is left; when the list is used up the
  generator is exhausted (the window was closed).
\<close>

datatype frame = Frame (stop_is_set: bool) (render_raises: bool)

text \<open>The \<^verbatim>\<open>for _ in gui_app.render()\<close> loop inside \<^verbatim>\<open>try\<close>.\<close>

fun render_loop :: "frame list \<Rightarrow> event list \<times> loop_exit" where
  "render_loop [] = ([], FramesEnded)"
| "render_loop (f # frames) =
     (if stop_is_set f then ([], StopFlagSet)
      else if render_raises f then ([RenderCalled], RenderRaised)
      else (case render_loop frames of (evs, ex) \<Rightarrow> (RenderCalled # evs, ex)))"

text \<open>
  \<^verbatim>\<open>TextWindow._run\<close>: the events of the worker, the renderer it stored in
  \<^verbatim>\<open>self._renderer\<close>, and how the loop was left (\<open>None\<close> when it was never entered).
  \<open>ci_env\<close> is \<^verbatim>\<open>os.getenv("CI")\<close>; \<open>TextWindowRenderer\<close> is the constructor of the
  renderer (in the program \<open>TextWindowRenderer_init\<close> at the application's measurement,
  window size and scroll panel). The \<^verbatim>\<open>finally\<close> clause appends \<open>CloseWindow\<close> on
  every way out of the loop.
\<close>

definition TextWindow_run ::
  "(string \<Rightarrow> 'r) \<Rightarrow> string option \<Rightarrow> string \<Rightarrow> frame list
     \<Rightarrow> event list \<times> 'r option \<times> loop_exit option" where
  "TextWindow_run TextWindowRenderer ci_env text frames =
     (if ci_env \<noteq> None then ([], None, None)
      else case render_loop frames of (evs, ex) \<Rightarrow>
        (InitWindow ''Text'' # RendererPublished # evs @ [CloseWindow],
         Some (TextWindowRenderer text), Some ex))"

text \<open>
  What the creating thread can see of the worker once the worker has made \<open>k\<close> steps
  (one step per event, and one more to return): the field \<^verbatim>\<open>self._renderer\<close> and
  \<^verbatim>\<open>self._thread.is_alive()\<close>.
\<close>

definition worker_view ::
  "event list \<times> 'r option \<times> loop_exit option \<Rightarrow> nat \<Rightarrow> 'r option \<times> bool" where
  "worker_view res k =
     (case res of (evs, renderer, ex) \<Rightarrow>
        (if RendererPublished \<in> set (take k evs) then renderer else None, k \<le> length evs))"

text \<open>
  The wait in \<^verbatim>\<open>TextWindow.__init__\<close>:
  \<^verbatim>\<open>while self._renderer is None and self._thread.is_alive(): time.sleep(0.01)\<close>.
  \<open>obs i\<close> is what the \<open>i\<close>-th test of the condition reads; the result is the index of
  the test that leaves the loop, and \<open>None\<close> when no test ever does.
\<close>

partial_function (option) await_renderer ::
  "(nat \<Rightarrow> 'r option \<times> bool) \<Rightarrow> nat \<Rightarrow> nat option" where
  "await_renderer obs i =
     (if fst (obs i) = None \<and> snd (obs i) then await_renderer obs (Suc i) else Some i)"

text \<open>
  The session as the creating thread sees it: the text, the renderer field, the stop
  event, and whether the worker thread is alive.
\<close>

record 'r text_window =
  tw_text :: string
  tw_renderer :: "'r option"
  stop_event :: bool
  thread_alive :: bool

text \<open>
  \<^verbatim>\<open>TextWindow.__init__\<close>. The scheduler is a parameter: \<open>sched i\<close> is the number of
  steps the worker has made when the creating thread tests the loop condition for the
  \<open>i\<close>-th time. The result is \<open>None\<close> when the constructor never returns.
\<close>

definition TextWindow_init ::
  "(string \<Rightarrow> 'r) \<Rightarrow> string option \<Rightarrow> frame list \<Rightarrow> (nat \<Rightarrow> nat) \<Rightarrow> string
     \<Rightarrow> 'r text_window option" where
  "TextWindow_init TextWindowRenderer ci_env frames sched text =
     (let obs = (\<lambda>i. worker_view (TextWindow_run TextWindowRenderer ci_env text frames) (sched i))
      in case await_renderer obs 0 of
           None \<Rightarrow> None
         | Some i \<Rightarrow> Some \<lparr>tw_text = text, tw_renderer = fst (obs i), stop_event = False,
                            thread_alive = snd (obs i)\<rparr>)"

text \<open>
  \<^verbatim>\<open>TextWindow.close\<close>, returning the session and the events of the call.
  \<open>exits_in_time\<close> says whether the worker finishes within the two seconds of
  \<^verbatim>\<open>join(timeout=2.0)\<close>.
\<close>

definition TextWindow_close :: "bool \<Rightarrow> 'r text_window \<Rightarrow> 'r text_window \<times> event list" where
  "TextWindow_close exits_in_time w =
     (if thread_alive w then
        let w1 = w\<lparr>stop_event := True\<rparr>;
            w2 = w1\<lparr>thread_alive := \<not> exits_in_time\<rparr>
        in (w2, [StopEventSet, ThreadJoin] @ (if thread_alive w2 then [WarningPrinted] else []))
      else (w, []))"

section \<open>Properties of the string operations\<close>

lemma isspace_space: "isspace CHR 0x20"
  by (simp add: isspace_def whitespace_def)

lemma isspace_nl: "isspace CHR 0x0A"
  by (simp add: isspace_def whitespace_def)

lemma words_acc_space_mid:
  "isspace c \<Longrightarrow> words_acc acc (s @ c # t) = words_acc acc s @ words_acc [] t"
  by (induction s arbitrary: acc) simp_all

lemma words_acc_nospace:
  "\<forall>c\<in>set s. \<not> isspace c \<Longrightarrow> words_acc acc (s @ t) = words_acc (acc @ s) t"
  by (induction s arbitrary: acc) simp_all

lemma words_acc_allspace:
  "\<forall>c\<in>set s. isspace c \<Longrightarrow> s \<noteq> [] \<Longrightarrow> words_acc acc (s @ t) = wd acc @ words_acc [] t"
proof (induction s arbitrary: acc)
  case Nil then show ?case by simp
next
  case (Cons c s)
  show ?case
  proof (cases "s = []")
    case True with Cons.prems show ?thesis by simp
  next
    case False
    with Cons have "words_acc [] (s @ t) = wd [] @ words_acc [] t" by simp
    with Cons.prems show ?thesis by (simp add: wd_def)
  qed
qed

lemma words_of_allspace: "\<forall>c\<in>set s. isspace c \<Longrightarrow> words_of s = []"
  using words_acc_allspace [of s "[]" "[]"] by (cases "s = []") (simp_all add: words_of_def wd_def)

lemma words_of_nospace: "\<forall>c\<in>set w. \<not> isspace c \<Longrightarrow> words_of w = wd w"
  using words_acc_nospace [of w "[]" "[]"] by (simp add: words_of_def)

lemma words_of_append_space_start:
  assumes "t = [] \<or> isspace (hd t)"
  shows "words_of (s @ t) = words_of s @ words_of t"
proof (cases t)
  case Nil then show ?thesis by (simp add: words_of_def wd_def)
next
  case (Cons c t')
  with assms have "isspace c" by simp
  then show ?thesis using Cons by (simp add: words_of_def words_acc_space_mid wd_def)
qed

lemma words_of_append_space_end:
  assumes "s = [] \<or> isspace (last s)"
  shows "words_of (s @ t) = words_of s @ words_of t"
proof (cases "s = []")
  case True then show ?thesis by (simp add: words_of_def wd_def)
next
  case False
  then obtain s' c where s: "s = s' @ [c]" by (metis rev_exhaust)
  with assms have c: "isspace c" by simp
  have "words_of (s @ t) = words_acc [] (s' @ c # t)" by (simp add: s words_of_def)
  also have "\<dots> = words_acc [] s' @ words_acc [] t" using c by (rule words_acc_space_mid)
  also have "words_acc [] s' = words_acc [] (s' @ c # [])"
    using c by (simp add: words_acc_space_mid wd_def)
  finally show ?thesis by (simp add: s words_of_def)
qed

lemma words_of_split_acc: "concat (map words_of (split_acc acc s)) = words_of (acc @ s)"
proof (induction s arbitrary: acc)
  case Nil then show ?case by simp
next
  case (Cons c s)
  show ?case
  proof (cases "c = CHR 0x0A")
    case True
    have "words_of (acc @ c # s) = words_of acc @ words_of (c # s)"
      using True isspace_nl by (intro words_of_append_space_start) simp
    moreover have "words_of (c # s) = words_of s"
      using True isspace_nl by (simp add: words_of_def wd_def)
    ultimately show ?thesis using True Cons.IH [of "[]"] by simp
  next
    case False
    then show ?thesis using Cons.IH [of "acc @ [c]"] by simp
  qed
qed

lemma words_of_split_nl: "concat (map words_of (split_nl text)) = words_of text"
  by (simp add: split_nl_def words_of_split_acc)

lemma concat_re_split_ws: "concat (re_split_ws s) = s"
proof (induction s rule: re_split_ws.induct)
  case (1 s)
  let ?r = "dropWhile (\<lambda>c. \<not> isspace c) s"
  show ?case
  proof (cases "?r = []")
    case True
    then have "takeWhile (\<lambda>c. \<not> isspace c) s = s"
      by (metis append_Nil2 takeWhile_dropWhile_id)
    with True show ?thesis by (subst re_split_ws.simps) (simp add: Let_def)
  next
    case False
    have "concat (re_split_ws (dropWhile isspace ?r)) = dropWhile isspace ?r"
      using False by (intro "1.IH") simp_all
    then show ?thesis using False
      by (subst re_split_ws.simps) (simp add: Let_def)
  qed
qed

lemma tok_ok_re_split_ws: "s = [] \<or> \<not> isspace (hd s) \<Longrightarrow> tok_ok (re_split_ws s)"
proof (induction s rule: re_split_ws.induct)
  case (1 s)
  let ?w = "takeWhile (\<lambda>c. \<not> isspace c) s"
  let ?r = "dropWhile (\<lambda>c. \<not> isspace c) s"
  have w: "\<forall>c\<in>set ?w. \<not> isspace c" by (auto dest: set_takeWhileD)
  show ?case
  proof (cases "?r = []")
    case True
    with w show ?thesis by (subst re_split_ws.simps) (simp add: Let_def)
  next
    case False
    then have s: "s \<noteq> []" by auto
    with "1.prems" have "\<not> isspace (hd s)" by simp
    with s have wne: "?w \<noteq> []" by (cases s) simp_all
    from False have "\<not> \<not> isspace (hd ?r)" by (rule hd_dropWhile)
    then have hr: "isspace (hd ?r)" by blast
    with False have sne: "takeWhile isspace ?r \<noteq> []" by (cases ?r) simp_all
    have sp: "\<forall>c\<in>set (takeWhile isspace ?r). isspace c" by (auto dest: set_takeWhileD)
    let ?t = "dropWhile isspace ?r"
    have "?t = [] \<or> \<not> isspace (hd ?t)" using hd_dropWhile [of isspace ?r] by blast
    then have "tok_ok (re_split_ws ?t)" using False by (intro "1.IH") simp_all
    have eq: "re_split_ws s = ?w # takeWhile isspace ?r # re_split_ws ?t"
      using False by (subst re_split_ws.simps) (simp add: Let_def)
    have "tok_ok (?w # takeWhile isspace ?r # re_split_ws ?t)"
      unfolding tok_ok.simps using w wne sne sp \<open>tok_ok (re_split_ws ?t)\<close> by blast
    then show ?thesis unfolding eq .
  qed
qed

lemma words_of_toks:
  "tok_ok (w # sep # toks) \<Longrightarrow> words_of (concat (w # sep # toks)) = w # words_of (concat toks)"
proof -
  assume ok: "tok_ok (w # sep # toks)"
  then have sep: "sep \<noteq> []" "\<forall>c\<in>set sep. isspace c" and w: "w \<noteq> []" "\<forall>c\<in>set w. \<not> isspace c"
    by simp_all
  from sep have "isspace (hd (sep @ concat toks))" "isspace (last sep)" by (cases sep; simp)+
  then have "words_of (w @ sep @ concat toks) = words_of w @ words_of sep @ words_of (concat toks)"
    by (simp add: words_of_append_space_start words_of_append_space_end)
  with sep w show ?thesis by (simp add: words_of_allspace words_of_nospace wd_def)
qed

lemma wrap_loop_words:
  "tok_ok toks \<Longrightarrow> cur = [] \<or> isspace (last cur) \<Longrightarrow>
   wrap_loop m fs mw toks cur lines = (cur', lines') \<Longrightarrow>
   concat (map words_of lines') @ words_of cur' =
     concat (map words_of lines) @ words_of cur @ words_of (concat toks)"
proof (induction m fs mw toks cur lines rule: wrap_loop.induct)
  case (1 m fs mw cur lines)
  then show ?case by (simp add: words_of_def wd_def)
next
  case (2 m fs mw word cur lines)
  from "2.prems"(1) have w: "words_of word = wd word" by (simp add: words_of_nospace)
  have a: "words_of (cur @ word) = words_of cur @ words_of word"
    using "2.prems"(2) by (rule words_of_append_space_end)
  have b: "words_of (word @ '' '') = words_of word"
    using words_of_append_space_start [of "'' ''" word] isspace_space
    by (simp add: words_of_allspace)
  show ?case
  proof (cases "m (cur @ word) fs \<le> mw")
    case True
    with "2.prems"(3) a show ?thesis by auto
  next
    case False
    with "2.prems"(3) b show ?thesis by auto
  qed
next
  case (3 m fs mw word sep words cur lines)
  from "3.prems"(1) have sep: "sep \<noteq> []" "\<forall>c\<in>set sep. isspace c" and ok: "tok_ok words"
    and wo: "words_of (concat (word # sep # words)) = word # words_of (concat words)"
    by (simp_all add: words_of_toks del: concat.simps)
  from "3.prems"(1) have w: "words_of word = [word]" by (simp add: words_of_nospace wd_def)
  from sep have ls: "isspace (last sep)" "isspace (hd sep)" by (cases sep; simp)+
  have a: "words_of (cur @ word @ sep) = words_of cur @ [word]"
  proof -
    have "words_of (cur @ word @ sep) = words_of cur @ words_of (word @ sep)"
      using "3.prems"(2) by (rule words_of_append_space_end)
    also have "words_of (word @ sep) = words_of word @ words_of sep"
      using ls by (intro words_of_append_space_start) simp
    finally show ?thesis using w sep by (simp add: words_of_allspace)
  qed
  have b: "words_of (word @ '' '') = [word]"
    using words_of_append_space_start [of "'' ''" word] isspace_space w
    by (simp add: words_of_allspace)
  show ?case
  proof (cases "m (cur @ word @ sep) fs \<le> mw")
    case True
    with "3.prems"(3) have "wrap_loop m fs mw words (cur @ word @ sep) lines = (cur', lines')"
      by simp
    moreover have "cur @ word @ sep = [] \<or> isspace (last (cur @ word @ sep))"
      using sep ls by simp
    ultimately have "concat (map words_of lines') @ words_of cur' =
        concat (map words_of lines) @ words_of (cur @ word @ sep) @ words_of (concat words)"
      using "3.IH"(1) [OF refl True ok] by simp
    with a wo show ?thesis by simp
  next
    case False
    with "3.prems"(3) have
      "wrap_loop m fs mw words (word @ '' '') (lines @ [cur]) = (cur', lines')"
      by simp
    moreover have "word @ '' '' = [] \<or> isspace (last (word @ '' ''))"
      using isspace_space by simp
    ultimately have "concat (map words_of lines') @ words_of cur' =
        concat (map words_of (lines @ [cur])) @ words_of (word @ '' '') @ words_of (concat words)"
      using "3.IH"(2) [OF refl False ok] by simp
    with b wo show ?thesis by simp
  qed
qed

lemma rstrip_decomp: "rstrip s @ rev (takeWhile isspace (rev s)) = s"
proof -
  have "rev (takeWhile isspace (rev s) @ dropWhile isspace (rev s)) = s"
    by (simp only: takeWhile_dropWhile_id rev_rev_ident)
  then show ?thesis unfolding rstrip_def rev_append .
qed

lemma rstrip_Nil_iff: "rstrip s = [] \<longleftrightarrow> (\<forall>c\<in>set s. isspace c)"
  by (simp add: rstrip_def)

lemma rstrip_last: "rstrip s \<noteq> [] \<Longrightarrow> \<not> isspace (last (rstrip s))"
proof -
  assume "rstrip s \<noteq> []"
  then have ne: "dropWhile isspace (rev s) \<noteq> []" by (simp add: rstrip_def)
  then have "\<not> isspace (hd (dropWhile isspace (rev s)))" by (rule hd_dropWhile)
  with ne show ?thesis by (simp add: rstrip_def last_rev)
qed

lemma strip_Nil_iff: "strip s = [] \<longleftrightarrow> (\<forall>c\<in>set s. isspace c)"
proof
  assume "strip s = []"
  then have all: "\<forall>c\<in>set (rstrip s). isspace c"
    by (simp add: strip_def dropWhile_eq_Nil_conv)
  have "rstrip s = []"
  proof (rule ccontr)
    assume ne: "rstrip s \<noteq> []"
    then have "\<not> isspace (last (rstrip s))" by (rule rstrip_last)
    moreover from ne have "last (rstrip s) \<in> set (rstrip s)" by simp
    ultimately show False using all by blast
  qed
  then show "\<forall>c\<in>set s. isspace c" by (simp add: rstrip_Nil_iff)
next
  assume "\<forall>c\<in>set s. isspace c"
  then have "rstrip s = []" by (simp add: rstrip_Nil_iff)
  then show "strip s = []" by (simp add: strip_def)
qed

lemma words_of_rstrip: "words_of (rstrip s) = words_of s"
proof -
  let ?t = "rev (takeWhile isspace (rev s))"
  have sp: "\<forall>c\<in>set ?t. isspace c" by (auto dest: set_takeWhileD)
  then have "?t = [] \<or> isspace (hd ?t)" by (cases ?t) auto
  then have "words_of (rstrip s @ ?t) = words_of (rstrip s) @ words_of ?t"
    by (rule words_of_append_space_start)
  with sp show ?thesis by (simp add: rstrip_decomp words_of_allspace)
qed

lemma drop_indent: "drop (length (indent_of p)) p = dropWhile isspace p"
  by (simp add: indent_of_def dropWhile_eq_drop)

lemma indent_allspace: "\<forall>c\<in>set (indent_of p). isspace c"
  by (auto simp: indent_of_def dest: set_takeWhileD)

lemma indent_clean: "indent_of p = [] \<or> isspace (last (indent_of p))"
  using indent_allspace [of p] by (cases "indent_of p = []") (auto dest: last_in_set)

lemma indent_rest: "indent_of p @ dropWhile isspace p = p"
  by (simp add: indent_of_def)

lemma rest_start: "dropWhile isspace p = [] \<or> \<not> isspace (hd (dropWhile isspace p))"
  using hd_dropWhile [of isspace p] by blast

lemma words_of_paragraph: "words_of (dropWhile isspace p) = words_of p"
proof -
  have "words_of (indent_of p @ dropWhile isspace p) =
        words_of (indent_of p) @ words_of (dropWhile isspace p)"
    using indent_clean by (rule words_of_append_space_end)
  then show ?thesis using indent_allspace [of p] by (simp add: indent_rest words_of_allspace)
qed

lemma wrap_paragraph_words:
  "concat (map words_of (wrap_paragraph m fs mw lines p)) =
     concat (map words_of lines) @ words_of p"
proof (cases "strip p = []")
  case True
  then have "words_of p = []" by (simp add: strip_Nil_iff words_of_allspace)
  with True show ?thesis by (simp add: wrap_paragraph_def words_of_def wd_def)
next
  case False
  let ?rest = "dropWhile isspace p"
  obtain cur' lines' where
    loop: "wrap_loop m fs mw (re_split_ws ?rest) (indent_of p) lines = (cur', lines')"
    by (cases "wrap_loop m fs mw (re_split_ws ?rest) (indent_of p) lines") auto
  have "tok_ok (re_split_ws ?rest)" using rest_start by (rule tok_ok_re_split_ws)
  from wrap_loop_words [OF this indent_clean loop]
  have "concat (map words_of lines') @ words_of cur' =
          concat (map words_of lines) @ words_of (indent_of p) @ words_of ?rest"
    by (simp add: concat_re_split_ws)
  then have inv: "concat (map words_of lines') @ words_of cur' =
          concat (map words_of lines) @ words_of p"
    using indent_allspace [of p] by (simp add: words_of_allspace words_of_paragraph)
  have res: "wrap_paragraph m fs mw lines p =
          (if rstrip cur' \<noteq> [] then lines' @ [rstrip cur'] else lines')"
    using False loop by (simp add: wrap_paragraph_def drop_indent Let_def)
  show ?thesis
  proof (cases "rstrip cur' = []")
    case True
    then have "words_of cur' = []" by (simp add: rstrip_Nil_iff words_of_allspace)
    with inv res True show ?thesis by simp
  next
    case False
    with inv res show ?thesis by (simp add: words_of_rstrip)
  qed
qed

lemma foldl_wrap_paragraph_words:
  "concat (map words_of (foldl (wrap_paragraph m fs mw) lines ps)) =
     concat (map words_of lines) @ concat (map words_of ps)"
  by (induction ps arbitrary: lines) (simp_all add: wrap_paragraph_words)

lemma split_acc_no_nl: "CHR 0x0A \<notin> set s \<Longrightarrow> split_acc acc s = [acc @ s]"
  by (induction s arbitrary: acc) auto

lemma split_nl_no_nl: "CHR 0x0A \<notin> set p \<Longrightarrow> split_nl p = [p]"
  by (simp add: split_nl_def split_acc_no_nl)

lemma wrap_loop_all_fit:
  "\<forall>s t. m s fs \<le> m (s @ t) fs \<Longrightarrow> m (cur @ concat toks) fs \<le> mw \<Longrightarrow>
   wrap_loop m fs mw toks cur lines = (cur @ concat toks, lines)"
proof (induction m fs mw toks cur lines rule: wrap_loop.induct)
  case (1 m fs mw cur lines)
  then show ?case by simp
next
  case (2 m fs mw word cur lines)
  then show ?case by simp
next
  case (3 m fs mw word sep words cur lines)
  have "m ((cur @ word @ sep) @ concat words) fs \<le> mw" using "3.prems"(2) by simp
  moreover have "m (cur @ word @ sep) fs \<le> m ((cur @ word @ sep) @ concat words) fs"
    using "3.prems"(1) by blast
  ultimately have fit: "m (cur @ word @ sep) fs \<le> mw" by (rule order_trans [rotated])
  have "wrap_loop m fs mw words (cur @ word @ sep) lines =
          ((cur @ word @ sep) @ concat words, lines)"
    using "3.IH"(1) [OF refl fit "3.prems"(1)] "3.prems"(2) by simp
  with fit show ?case by simp
qed

lemma fixed_pitch_mono: "fixed_pitch s fs \<le> fixed_pitch (s @ t) fs"
  by (simp add: fixed_pitch_def)

lemma wrap_loop_fits:
  "\<forall>s t. m s fs \<le> m (s @ t) fs \<Longrightarrow> tok_ok toks \<Longrightarrow> m cur fs \<le> mw \<Longrightarrow>
   \<forall>l\<in>set lines. m l fs \<le> mw \<Longrightarrow>
   \<forall>w\<in>set (words_of (concat toks)). m (w @ '' '') fs \<le> mw \<Longrightarrow>
   wrap_loop m fs mw toks cur lines = (cur', lines') \<Longrightarrow>
   m cur' fs \<le> mw \<and> (\<forall>l\<in>set lines'. m l fs \<le> mw)"
proof (induction m fs mw toks cur lines rule: wrap_loop.induct)
  case (1 m fs mw cur lines)
  then show ?case by simp
next
  case (2 m fs mw word cur lines)
  show ?case
  proof (cases "m (cur @ word) fs \<le> mw")
    case True
    with "2.prems" show ?thesis by auto
  next
    case False
    with "2.prems"(3) have "word \<noteq> []" by auto
    moreover from "2.prems"(2) have "words_of word = wd word" by (simp add: words_of_nospace)
    ultimately have "word \<in> set (words_of (concat [word]))" by (simp add: wd_def)
    with "2.prems"(5) have "m (word @ '' '') fs \<le> mw" by blast
    with False "2.prems" show ?thesis by auto
  qed
next
  case (3 m fs mw word sep words cur lines)
  from "3.prems"(2) have ok: "tok_ok words"
    and wo: "words_of (concat (word # sep # words)) = word # words_of (concat words)"
    by (simp_all add: words_of_toks del: concat.simps)
  from wo "3.prems"(5) have wfit: "m (word @ '' '') fs \<le> mw"
    and rest: "\<forall>w\<in>set (words_of (concat words)). m (w @ '' '') fs \<le> mw"
    by simp_all
  show ?case
  proof (cases "m (cur @ word @ sep) fs \<le> mw")
    case True
    with "3.prems"(6) have "wrap_loop m fs mw words (cur @ word @ sep) lines = (cur', lines')"
      by simp
    from "3.IH"(1) [OF refl True "3.prems"(1) ok True "3.prems"(4) rest this]
    show ?thesis .
  next
    case False
    with "3.prems"(6) have
      loop: "wrap_loop m fs mw words (word @ '' '') (lines @ [cur]) = (cur', lines')"
      by simp
    have "\<forall>l\<in>set (lines @ [cur]). m l fs \<le> mw" using "3.prems"(3,4) by simp
    from "3.IH"(2) [OF refl False "3.prems"(1) ok wfit this rest loop]
    show ?thesis .
  qed
qed

lemma wrap_paragraph_fits:
  assumes mono: "\<forall>s t. m s fs \<le> m (s @ t) fs"
    and lines: "\<forall>l\<in>set lines. m l fs \<le> mw"
    and ind: "strip p \<noteq> [] \<longrightarrow> m (indent_of p) fs \<le> mw"
    and wds: "\<forall>w\<in>set (words_of p). m (w @ '' '') fs \<le> mw"
  shows "\<forall>l\<in>set (wrap_paragraph m fs mw lines p). m l fs \<le> mw"
proof (cases "strip p = []")
  case True
  show ?thesis
  proof (cases "lines = []")
    case True
    with \<open>strip p = []\<close> show ?thesis by (simp add: wrap_paragraph_def)
  next
    case False
    then obtain l where l: "l \<in> set lines" by (cases lines) auto
    have "m [] fs \<le> m ([] @ l) fs" using mono by blast
    also have "\<dots> \<le> mw" using l lines by simp
    finally show ?thesis using True False lines by (simp add: wrap_paragraph_def)
  qed
next
  case False
  let ?rest = "dropWhile isspace p"
  obtain cur' lines' where
    loop: "wrap_loop m fs mw (re_split_ws ?rest) (indent_of p) lines = (cur', lines')"
    by (cases "wrap_loop m fs mw (re_split_ws ?rest) (indent_of p) lines") auto
  have ok: "tok_ok (re_split_ws ?rest)" using rest_start by (rule tok_ok_re_split_ws)
  have w: "\<forall>w\<in>set (words_of (concat (re_split_ws ?rest))). m (w @ '' '') fs \<le> mw"
    using wds by (simp add: concat_re_split_ws words_of_paragraph)
  from False ind have "m (indent_of p) fs \<le> mw" by blast
  from wrap_loop_fits [OF mono ok this lines w loop]
  have cur: "m cur' fs \<le> mw" and lines': "\<forall>l\<in>set lines'. m l fs \<le> mw" by blast+
  have "m (rstrip cur') fs \<le> m (rstrip cur' @ rev (takeWhile isspace (rev cur'))) fs"
    using mono by blast
  with cur have "m (rstrip cur') fs \<le> mw" by (simp add: rstrip_decomp)
  moreover have "wrap_paragraph m fs mw lines p =
          (if rstrip cur' \<noteq> [] then lines' @ [rstrip cur'] else lines')"
    using False loop by (simp add: wrap_paragraph_def drop_indent Let_def)
  ultimately show ?thesis using lines' by simp
qed

lemma foldl_wrap_paragraph_fits:
  assumes mono: "\<forall>s t. m s fs \<le> m (s @ t) fs"
  shows "\<forall>l\<in>set lines. m l fs \<le> mw \<Longrightarrow>
    \<forall>p\<in>set ps. strip p \<noteq> [] \<longrightarrow> m (indent_of p) fs \<le> mw \<Longrightarrow>
    \<forall>p\<in>set ps. \<forall>w\<in>set (words_of p). m (w @ '' '') fs \<le> mw \<Longrightarrow>
    \<forall>l\<in>set (foldl (wrap_paragraph m fs mw) lines ps). m l fs \<le> mw"
proof (induction ps arbitrary: lines)
  case Nil
  then show ?case by simp
next
  case (Cons p ps)
  have "\<forall>l\<in>set (wrap_paragraph m fs mw lines p). m l fs \<le> mw"
    using mono Cons.prems(1) by (rule wrap_paragraph_fits) (use Cons.prems in simp_all)
  from Cons.IH [OF this] Cons.prems show ?case by simp
qed

lemma words_of_join_lines: "words_of (join_lines ls) = concat (map words_of ls)"
proof (induction ls rule: join_lines.induct)
  case 1
  then show ?case by (simp add: words_of_def wd_def)
next
  case (2 l)
  then show ?case by simp
next
  case (3 l l' ls)
  have "words_of (l @ CHR 0x0A # join_lines (l' # ls)) =
          words_of l @ words_of (CHR 0x0A # join_lines (l' # ls))"
    using isspace_nl by (intro words_of_append_space_start) simp
  moreover have "words_of (CHR 0x0A # join_lines (l' # ls)) = words_of (join_lines (l' # ls))"
    using isspace_nl by (simp add: words_of_def wd_def)
  ultimately show ?case using "3.IH" by simp
qed

lemma wrap_loop_prefix:
  "wrap_loop m fs mw toks cur lines = (cur', lines') \<Longrightarrow> \<exists>ext. lines' = lines @ ext"
proof (induction m fs mw toks cur lines rule: wrap_loop.induct)
  case (1 m fs mw cur lines)
  then show ?case by simp
next
  case (2 m fs mw word cur lines)
  then show ?case by (auto simp: Let_def split: if_splits)
next
  case (3 m fs mw word sep words cur lines)
  show ?case
  proof (cases "m (cur @ word @ sep) fs \<le> mw")
    case True
    with "3.prems" "3.IH"(1) [OF refl True] show ?thesis by simp
  next
    case False
    with "3.prems" have "wrap_loop m fs mw words (word @ '' '') (lines @ [cur]) = (cur', lines')"
      by simp
    from "3.IH"(2) [OF refl False this] show ?thesis by auto
  qed
qed

section \<open>Properties of the float store and of the renderer's input\<close>

lemma bitlen_le: "n < 2 ^ k \<Longrightarrow> bitlen n \<le> k"
proof (induction k arbitrary: n)
  case 0
  then show ?case by (subst bitlen.simps) simp
next
  case (Suc k)
  show ?case
  proof (cases "n = 0")
    case True
    then show ?thesis by (subst bitlen.simps) simp
  next
    case False
    from Suc.prems have "n div 2 < 2 ^ k" by simp
    then have "bitlen (n div 2) \<le> k" by (rule Suc.IH)
    with False show ?thesis by (subst bitlen.simps) simp
  qed
qed

lemma f32_exact: "\<bar>x\<bar> < 2 ^ 24 \<Longrightarrow> f32 x = x"
proof -
  assume b: "\<bar>x\<bar> < 2 ^ 24"
  then have "nat \<bar>x\<bar> < 2 ^ 24" by (simp add: nat_less_iff)
  then have "bitlen (nat \<bar>x\<bar>) \<le> 24" by (rule bitlen_le)
  then have "bitlen (nat \<bar>x\<bar>) - 24 = 0" by simp
  then have "f32 x = sgn x * int (nat \<bar>x\<bar>)" by (simp add: f32_def Let_def)
  also have "\<dots> = x" by (simp add: sgn_if)
  finally show ?thesis .
qed

lemma f32_small: "0 \<le> x \<Longrightarrow> x < 2 ^ 24 \<Longrightarrow> f32 x = x"
  by (rule f32_exact) simp

lemma renderer_fields:
  "rect_height (textarea_rect (TextWindowRenderer_init m w h p t)) = f32 h"
  "wrapped_lines (TextWindowRenderer_init m w h p t) =
     wrap_text m t FONT_SIZE (of_int (f32 (w - MARGIN) - 20))"
  "rect_height (content_rect (TextWindowRenderer_init m w h p t)) =
     f32 (int (length (wrapped_lines (TextWindowRenderer_init m w h p t))) * LINE_HEIGHT)"
  "offset_y (scroll_panel (TextWindowRenderer_init m w h p t)) =
     f32 (- max (rect_height (content_rect (TextWindowRenderer_init m w h p t)) -
                 rect_height (textarea_rect (TextWindowRenderer_init m w h p t))) 0)"
  by (simp_all add: TextWindowRenderer_init_def Let_def Rectangle_def)

lemma split_acc_join_lines:
  "ls \<noteq> [] \<Longrightarrow> \<forall>l\<in>set ls. CHR 0x0A \<notin> set l \<Longrightarrow> CHR 0x0A \<notin> set acc \<Longrightarrow>
   split_acc acc (join_lines ls) = (acc @ hd ls) # tl ls"
proof (induction ls arbitrary: acc rule: join_lines.induct)
  case 1
  then show ?case by simp
next
  case (2 l)
  then show ?case by (simp add: split_acc_no_nl)
next
  case (3 l l' ls)
  have step: "split_acc acc (l @ CHR 0x0A # t) = (acc @ l) # split_acc [] t" for t
    using "3.prems"(2) by (induction l arbitrary: acc) auto
  have "split_acc [] (join_lines (l' # ls)) = ([] @ hd (l' # ls)) # tl (l' # ls)"
    using "3.prems" by (intro "3.IH") simp_all
  then show ?case by (simp add: step)
qed

lemma split_nl_join_lines:
  "ls \<noteq> [] \<Longrightarrow> \<forall>l\<in>set ls. CHR 0x0A \<notin> set l \<Longrightarrow> split_nl (join_lines ls) = ls"
  by (simp add: split_nl_def split_acc_join_lines)

lemma wrap_paragraph_a:
  assumes "m ''a'' fs \<le> mw"
  shows "wrap_paragraph m fs mw lines ''a'' = lines @ [''a'']"
proof -
  have a: "\<not> isspace CHR ''a''" by (simp add: isspace_def whitespace_def)
  have toks: "re_split_ws ''a'' = [''a'']"
    using a by (subst re_split_ws.simps) (simp add: Let_def)
  have nb: "strip ''a'' \<noteq> []" "indent_of ''a'' = []" "rstrip ''a'' = ''a''"
    using a by (simp_all add: strip_def rstrip_def indent_of_def)
  show ?thesis using assms nb toks by (simp add: wrap_paragraph_def Let_def)
qed

lemma foldl_wrap_paragraph_a:
  "m ''a'' fs \<le> mw \<Longrightarrow>
   foldl (wrap_paragraph m fs mw) lines (replicate n ''a'') = lines @ replicate n ''a''"
proof (induction n arbitrary: lines)
  case 0
  then show ?case by simp
next
  case (Suc n)
  then show ?case by (simp add: wrap_paragraph_a replicate_app_Cons_same)
qed

lemma wrap_text_lines_of_a:
  assumes "m ''a'' fs \<le> mw"
  shows "wrap_text m (join_lines (replicate n ''a'')) fs mw = replicate n ''a''"
proof (cases n)
  case 0
  then show ?thesis by (simp add: wrap_text_def split_nl_def wrap_paragraph_def strip_def rstrip_def)
next
  case (Suc k)
  then have "split_nl (join_lines (replicate n ''a'')) = replicate n ''a''"
    by (intro split_nl_join_lines) auto
  with assms show ?thesis by (simp add: wrap_text_def foldl_wrap_paragraph_a)
qed

section \<open>Properties of the session\<close>

lemma await_renderer_returns:
  "\<not> (fst (obs j) = None \<and> snd (obs j)) \<Longrightarrow> i \<le> j \<Longrightarrow>
   \<exists>k. await_renderer obs i = Some k \<and> i \<le> k \<and> k \<le> j \<and> \<not> (fst (obs k) = None \<and> snd (obs k))"
proof (induction "j - i" arbitrary: i)
  case 0
  then have "i = j" by simp
  with "0.prems" show ?case by (subst await_renderer.simps) auto
next
  case (Suc n)
  show ?case
  proof (cases "fst (obs i) = None \<and> snd (obs i)")
    case True
    from Suc.hyps(2) Suc.prems have "n = j - Suc i" "Suc i \<le> j" by simp_all
    from Suc.hyps(1) [OF this(1) Suc.prems(1) this(2)]
    obtain k where "await_renderer obs (Suc i) = Some k" "Suc i \<le> k" "k \<le> j"
      "\<not> (fst (obs k) = None \<and> snd (obs k))" by blast
    with True show ?thesis by (subst await_renderer.simps) auto
  next
    case False
    with Suc.prems show ?thesis by (subst await_renderer.simps) auto
  qed
qed

lemma render_loop_events: "set (fst (render_loop frames)) \<subseteq> {RenderCalled}"
  by (induction frames) (auto split: prod.splits)

lemma render_loop_exits:
  "render_loop [] = ([], FramesEnded)"
  "render_loop [Frame False False, Frame True False] = ([RenderCalled], StopFlagSet)"
  "render_loop [Frame False False, Frame False True, Frame False False] =
     ([RenderCalled, RenderCalled], RenderRaised)"
  by simp_all

lemma close_running_session:
  "thread_alive w \<Longrightarrow> TextWindow_close True w =
     (w\<lparr>stop_event := True, thread_alive := False\<rparr>, [StopEventSet, ThreadJoin])"
  "thread_alive w \<Longrightarrow> TextWindow_close False w =
     (w\<lparr>stop_event := True, thread_alive := True\<rparr>, [StopEventSet, ThreadJoin, WarningPrinted])"
  by (simp_all add: TextWindow_close_def)

section \<open>Empty input\<close>

text \<open>
  C3: \<open>wrap_text\<close> applied to the empty string returns the empty sequence, not a sequence
  holding one empty string, whatever the measurement and the width.
\<close>

theorem wrap_text_empty: "wrap_text measure_text [] font_size max_width = []"
  by (simp add: wrap_text_def split_nl_def wrap_paragraph_def strip_def rstrip_def)

section \<open>A leading blank paragraph\<close>

text \<open>
  C2 claims that the input made of a line feed followed by \<open>a\<close> is wrapped to the two
  lines \<open>[[], ''a'']\<close> when \<open>a\<close> fits. The first paragraph is empty and \<open>lines\<close> is
  still empty when it is met, so the guard \<^verbatim>\<open>if lines:\<close> skips it: with the fixed-pitch
  measurement at font size 1 and width 5 the result is the single line \<open>a\<close>.
\<close>

theorem wrap_text_newline_a_counterexample:
  "fixed_pitch ''a'' 1 \<le> 5 \<and>
   wrap_text fixed_pitch [CHR 0x0A, CHR ''a''] 1 5 = [''a''] \<and>
   wrap_text fixed_pitch [CHR 0x0A, CHR ''a''] 1 5 \<noteq> [[], ''a'']"
  by code_simp

text \<open>
  C2, amended: whenever \<open>a\<close> measures within the width, the input made of a line feed
  followed by \<open>a\<close> is wrapped to the one line \<open>a\<close>; the leading blank paragraph is
  suppressed, and an input that is a lone line feed yields no line at all, as the empty
  input does.
\<close>

theorem wrap_text_newline_a:
  assumes "measure_text ''a'' font_size \<le> max_width"
  shows "wrap_text measure_text [CHR 0x0A, CHR ''a''] font_size max_width = [''a''] \<and>
         wrap_text measure_text [CHR 0x0A] font_size max_width = []"
proof -
  have a: "\<not> isspace CHR ''a''" by (simp add: isspace_def whitespace_def)
  have split: "split_nl [CHR 0x0A, CHR ''a''] = [[], ''a'']" "split_nl [CHR 0x0A] = [[], []]"
    by (simp_all add: split_nl_def)
  have blank: "wrap_paragraph measure_text font_size max_width [] [] = []"
    by (simp add: wrap_paragraph_def strip_def rstrip_def)
  have toks: "re_split_ws ''a'' = [''a'']"
    using a by (subst re_split_ws.simps) (simp add: Let_def)
  have nb: "strip ''a'' \<noteq> []" "indent_of ''a'' = []" "rstrip ''a'' = ''a''"
    using a by (simp_all add: strip_def rstrip_def indent_of_def)
  have "wrap_paragraph measure_text font_size max_width [] ''a'' = [''a'']"
    using assms nb toks by (simp add: wrap_paragraph_def Let_def)
  with blank split show ?thesis by (simp add: wrap_text_def)
qed

theorem wrap_text_newline_a_witness:
  "fixed_pitch ''a'' 64 \<le> 100 \<and>
   wrap_text fixed_pitch [CHR 0x0A, CHR ''a''] 64 100 = [''a''] \<and>
   wrap_text fixed_pitch [CHR 0x0A] 64 100 = []"
proof -
  have h: "fixed_pitch ''a'' 64 \<le> 100" by (simp add: fixed_pitch_def)
  from wrap_text_newline_a [of fixed_pitch 64 100, OF h] h show ?thesis by simp
qed

section \<open>A paragraph that fits\<close>

text \<open>
  C4 claims one display line for every paragraph without a line feed that measures within
  the width. A blank paragraph is such a paragraph and yields no line: two spaces, at font
  size 1 and width 5 (the fixed-pitch measurement is monotone, \<open>fixed_pitch_mono\<close>).
\<close>

theorem wrap_text_blank_paragraph_counterexample:
  "CHR 0x0A \<notin> set ''  '' \<and> fixed_pitch ''  '' 1 \<le> 5 \<and>
   wrap_text fixed_pitch ''  '' 1 5 = [] \<and>
   wrap_text fixed_pitch ''  '' 1 5 \<noteq> [rstrip ''  '']"
  by code_simp

text \<open>
  C4, amended: for every paragraph that is not blank, has no line feed and measures within
  the width, under a measurement that never shrinks when a string is extended,
  \<open>wrap_text\<close> returns exactly one display line: the paragraph with its indent kept and
  its trailing whitespace stripped.
\<close>

theorem wrap_text_fitting_paragraph:
  assumes mono: "\<forall>s t. measure_text s font_size \<le> measure_text (s @ t) font_size"
    and no_nl: "CHR 0x0A \<notin> set paragraph"
    and fits: "measure_text paragraph font_size \<le> max_width"
    and nonblank: "strip paragraph \<noteq> []"
  shows "wrap_text measure_text paragraph font_size max_width = [rstrip paragraph]"
proof -
  let ?rest = "dropWhile isspace paragraph"
  have "measure_text (indent_of paragraph @ concat (re_split_ws ?rest)) font_size \<le> max_width"
    using fits by (simp add: concat_re_split_ws indent_rest)
  with mono have
    "wrap_loop measure_text font_size max_width (re_split_ws ?rest) (indent_of paragraph) [] =
       (indent_of paragraph @ concat (re_split_ws ?rest), [])"
    by (rule wrap_loop_all_fit)
  then have loop:
    "wrap_loop measure_text font_size max_width (re_split_ws ?rest) (indent_of paragraph) [] =
       (paragraph, [])"
    by (simp add: concat_re_split_ws indent_rest)
  from nonblank have "rstrip paragraph \<noteq> []" by (auto simp: strip_def)
  with nonblank loop have
    "wrap_paragraph measure_text font_size max_width [] paragraph = [rstrip paragraph]"
    by (simp add: wrap_paragraph_def drop_indent Let_def)
  then show ?thesis using no_nl by (simp add: wrap_text_def split_nl_no_nl)
qed

theorem wrap_text_fitting_paragraph_witness:
  "CHR 0x0A \<notin> set ''  ab cd  '' \<and> fixed_pitch ''  ab cd  '' 1 \<le> 12 \<and>
   strip ''  ab cd  '' \<noteq> [] \<and>
   wrap_text fixed_pitch ''  ab cd  '' 1 12 = [''  ab cd'']"
proof -
  have mono: "\<forall>s t. fixed_pitch s 1 \<le> fixed_pitch (s @ t) 1"
    by (simp add: fixed_pitch_mono)
  have h1: "CHR 0x0A \<notin> set ''  ab cd  ''" by simp
  have h2: "fixed_pitch ''  ab cd  '' 1 \<le> 12" by (simp add: fixed_pitch_def)
  have h3: "strip ''  ab cd  '' \<noteq> []" by code_simp
  have r: "rstrip ''  ab cd  '' = ''  ab cd''" by code_simp
  from wrap_text_fitting_paragraph [of fixed_pitch 1 "''  ab cd  ''" 12, OF mono h1 h2 h3]
    r h1 h2 h3
  show ?thesis by simp
qed

section \<open>Width of the display lines\<close>

text \<open>
  C1 claims that every display line of a paragraph wider than the width measures within the
  width, given a monotone measurement. The loop never breaks a word and never measures the
  line it starts after an overflow: the one word \<open>aaa\<close>, three units wide at font size 1,
  is returned as a display line for the width 2.
\<close>

theorem wrap_text_wide_word_counterexample:
  "\<not> fixed_pitch ''aaa'' 1 \<le> 2 \<and>
   wrap_text fixed_pitch ''aaa'' 1 2 = [[], ''aaa''] \<and>
   ''aaa'' \<in> set (wrap_text fixed_pitch ''aaa'' 1 2)"
  by code_simp

text \<open>
  C1, amended: under a measurement that never shrinks when a string is extended, if the
  indent of every paragraph that is not blank measures within the width, and every word
  of the text followed by one space measures within the width, then every display line
  returned by \<open>wrap_text\<close> measures within the width.
\<close>

theorem wrap_text_lines_fit:
  assumes mono: "\<forall>s t. measure_text s font_size \<le> measure_text (s @ t) font_size"
    and indents: "\<forall>p\<in>set (split_nl text). strip p \<noteq> [] \<longrightarrow>
                    measure_text (indent_of p) font_size \<le> max_width"
    and wds: "\<forall>w\<in>set (words_of text). measure_text (w @ '' '') font_size \<le> max_width"
  shows "\<forall>l\<in>set (wrap_text measure_text text font_size max_width).
           measure_text l font_size \<le> max_width"
proof -
  have "\<forall>p\<in>set (split_nl text). \<forall>w\<in>set (words_of p).
          measure_text (w @ '' '') font_size \<le> max_width"
    using wds words_of_split_nl [of "text", symmetric] by auto
  with mono indents show ?thesis
    unfolding wrap_text_def by (intro foldl_wrap_paragraph_fits) simp_all
qed

theorem wrap_text_lines_fit_witness:
  "wrap_text fixed_pitch (''ab cd'' @ [CHR 0x0A] @ ''  ef'') 1 4 = [''ab '', ''cd'', ''  ef''] \<and>
   fixed_pitch ''ab '' 1 \<le> 4 \<and> fixed_pitch ''cd'' 1 \<le> 4 \<and> fixed_pitch ''  ef'' 1 \<le> 4"
proof -
  let ?t = "''ab cd'' @ [CHR 0x0A] @ ''  ef''"
  have mono: "\<forall>s t. fixed_pitch s 1 \<le> fixed_pitch (s @ t) 1"
    by (simp add: fixed_pitch_mono)
  have ind: "\<forall>p\<in>set (split_nl ?t). strip p \<noteq> [] \<longrightarrow> fixed_pitch (indent_of p) 1 \<le> 4"
    by code_simp
  have wds: "\<forall>w\<in>set (words_of ?t). fixed_pitch (w @ '' '') 1 \<le> 4"
    by code_simp
  have eq: "wrap_text fixed_pitch ?t 1 4 = [''ab '', ''cd'', ''  ef'']" by code_simp
  from wrap_text_lines_fit [of fixed_pitch 1 ?t 4, OF mono ind wds]
  show ?thesis unfolding eq by simp
qed

section \<open>The words survive wrapping\<close>

text \<open>
  C5: for every text, measurement and width, the words of the display lines, taken line by
  line in order, are the words of the text: none is dropped, duplicated or reordered.
  Blank display lines hold no word. The same holds of the lines read as one text again
  (joined with line feeds).
\<close>

theorem wrap_text_preserves_words:
  "concat (map words_of (wrap_text measure_text text font_size max_width)) = words_of text \<and>
   words_of (join_lines (wrap_text measure_text text font_size max_width)) = words_of text"
  by (simp add: wrap_text_def foldl_wrap_paragraph_words words_of_split_nl words_of_join_lines)

section \<open>An empty display line from a paragraph that is not blank\<close>

text \<open>
  C10: when a paragraph has no leading whitespace and its first word together with the
  whitespace after it measures wider than the width, the loop pushes the still empty
  current line: the paragraph is not blank and yet an empty display line is produced,
  after the lines already there, and first of all when the paragraph is the whole text.
\<close>

theorem wrap_text_empty_line_from_word:
  assumes ne: "p \<noteq> []" and start: "\<not> isspace (hd p)"
    and wide: "\<not> measure_text (takeWhile (\<lambda>c. \<not> isspace c) p @
                  takeWhile isspace (dropWhile (\<lambda>c. \<not> isspace c) p)) font_size \<le> max_width"
  shows "strip p \<noteq> [] \<and>
         (\<exists>rest. wrap_paragraph measure_text font_size max_width lines p = lines @ [] # rest) \<and>
         (CHR 0x0A \<notin> set p \<longrightarrow>
            (\<exists>rest. wrap_text measure_text p font_size max_width = [] # rest))"
proof -
  let ?w = "takeWhile (\<lambda>c. \<not> isspace c) p"
  let ?r = "dropWhile (\<lambda>c. \<not> isspace c) p"
  let ?sep = "takeWhile isspace ?r"
  from ne start have hdp: "hd p \<in> set p" "\<not> isspace (hd p)" by simp_all
  then have nonblank: "strip p \<noteq> []" by (auto simp: strip_Nil_iff)
  from ne start have ind: "indent_of p = []" by (cases p) (simp_all add: indent_of_def)
  have para: "\<exists>rest. wrap_paragraph measure_text font_size max_width ls p = ls @ [] # rest"
    for ls
  proof -
    obtain cur' lines' where loop:
      "wrap_loop measure_text font_size max_width (re_split_ws p) [] ls = (cur', lines')"
      by (cases "wrap_loop measure_text font_size max_width (re_split_ws p) [] ls") auto
    have "\<exists>ext. lines' = (ls @ [[]]) @ ext"
    proof (cases "?r = []")
      case True
      then have "re_split_ws p = [?w]" by (subst re_split_ws.simps) (simp add: Let_def)
      with loop wide True show ?thesis by simp
    next
      case False
      then have "re_split_ws p = ?w # ?sep # re_split_ws (dropWhile isspace ?r)"
        by (subst re_split_ws.simps) (simp add: Let_def)
      with loop wide have "wrap_loop measure_text font_size max_width
          (re_split_ws (dropWhile isspace ?r)) (?w @ '' '') (ls @ [[]]) = (cur', lines')"
        by simp
      then show ?thesis by (rule wrap_loop_prefix)
    qed
    then obtain ext where ext: "lines' = ls @ [] # ext" by auto
    have "wrap_paragraph measure_text font_size max_width ls p =
            (if rstrip cur' \<noteq> [] then lines' @ [rstrip cur'] else lines')"
      using nonblank loop ind by (simp add: wrap_paragraph_def Let_def)
    with ext show ?thesis by simp
  qed
  from para [of "[]"] have "CHR 0x0A \<notin> set p \<longrightarrow>
      (\<exists>rest. wrap_text measure_text p font_size max_width = [] # rest)"
    by (simp add: wrap_text_def split_nl_no_nl)
  with nonblank para [of lines] show ?thesis by blast
qed

theorem wrap_text_empty_line_from_word_witness:
  "''hello world'' \<noteq> [] \<and> \<not> isspace (hd ''hello world'') \<and>
   CHR 0x0A \<notin> set ''hello world'' \<and>
   \<not> fixed_pitch ''hello '' 1 \<le> 3 \<and> strip ''hello world'' \<noteq> [] \<and>
   wrap_text fixed_pitch ''hello world'' 1 3 = [[], ''hello '', ''world'']"
proof -
  have h1: "''hello world'' \<noteq> []" by simp
  have h2: "\<not> isspace (hd ''hello world'')" by code_simp
  have tw: "takeWhile (\<lambda>c. \<not> isspace c) ''hello world'' @
            takeWhile isspace (dropWhile (\<lambda>c. \<not> isspace c) ''hello world'') = ''hello ''"
    by code_simp
  have h3: "\<not> fixed_pitch ''hello '' 1 \<le> 3" by (simp add: fixed_pitch_def)
  have eq: "wrap_text fixed_pitch ''hello world'' 1 3 = [[], ''hello '', ''world'']"
    by code_simp
  from wrap_text_empty_line_from_word [of "''hello world''" fixed_pitch 1 3, OF h1 h2]
    h3 tw h1 h2 eq
  show ?thesis by simp
qed

section \<open>The initial scroll offset\<close>

text \<open>
  C6 claims that after construction the vertical scroll offset is the negation of content
  height minus viewport height when the content is taller than the viewport. The offset
  is stored in a float field: for a text of 233032 lines in a window 1081 pixels high the
  content height is 16778304, the difference 16777223 has no binary32 representation, and
  the offset stored is \<open>-16777224\<close>.
\<close>

theorem renderer_scroll_offset_rounded_counterexample:
  "rect_height (content_rect (TextWindowRenderer_init fixed_pitch_px 2160 1081
       \<lparr>offset_x = 0, offset_y = 0\<rparr> (join_lines (replicate 233032 ''a'')))) = 16778304 \<and>
   rect_height (textarea_rect (TextWindowRenderer_init fixed_pitch_px 2160 1081
       \<lparr>offset_x = 0, offset_y = 0\<rparr> (join_lines (replicate 233032 ''a'')))) = 1081 \<and>
   offset_y (scroll_panel (TextWindowRenderer_init fixed_pitch_px 2160 1081
       \<lparr>offset_x = 0, offset_y = 0\<rparr> (join_lines (replicate 233032 ''a'')))) = - 16777224 \<and>
   offset_y (scroll_panel (TextWindowRenderer_init fixed_pitch_px 2160 1081
       \<lparr>offset_x = 0, offset_y = 0\<rparr> (join_lines (replicate 233032 ''a'')))) \<noteq>
     - (16778304 - 1081)"
proof -
  define t where "t = join_lines (replicate 233032 ''a'')"
  define r where "r = TextWindowRenderer_init fixed_pitch_px 2160 1081
       \<lparr>offset_x = 0, offset_y = 0\<rparr> t"
  have fit: "fixed_pitch_px ''a'' FONT_SIZE \<le> of_int (f32 (2160 - MARGIN) - 20)"
    by (simp add: fixed_pitch_px_def FONT_SIZE_def MARGIN_def f32_small)
  have "wrapped_lines r = replicate 233032 ''a''"
    unfolding r_def t_def renderer_fields
    by (rule wrap_text_lines_of_a
          [of fixed_pitch_px FONT_SIZE "of_int (f32 (2160 - MARGIN) - 20)", OF fit])
  then have len: "length (wrapped_lines r) = 233032" by (simp only: length_replicate)
  have "bitlen 16778304 = 25" "bitlen 16777223 = 25" by (simp_all add: bitlen.simps)
  then have big: "f32 16778304 = 16778304" "f32 (- 16777223) = - 16777224"
    by (simp_all add: f32_def Let_def)
  have th: "rect_height (textarea_rect r) = 1081"
    unfolding r_def renderer_fields by (simp add: f32_small)
  have ch: "rect_height (content_rect r) = 16778304"
    using len unfolding r_def renderer_fields by (simp add: LINE_HEIGHT_def big)
  have "offset_y (scroll_panel r) =
          f32 (- max (rect_height (content_rect r) - rect_height (textarea_rect r)) 0)"
    unfolding r_def renderer_fields ..
  then have off: "offset_y (scroll_panel r) = - 16777224" by (simp add: ch th big)
  then have ne: "offset_y (scroll_panel r) \<noteq> - (16778304 - 1081)" by simp
  from ch th off ne show ?thesis unfolding r_def t_def by (intro conjI)
qed

text \<open>
  C6, amended: when the window height is a non-negative integer below \<open>2 ^ 24\<close> and the
  content height (the number of wrapped lines times the line height) is below \<open>2 ^ 24\<close>,
  so that the float fields hold them exactly, the vertical scroll offset after
  construction is the negation of content height minus viewport height when the content
  is taller than the viewport, and zero otherwise; the content height is the number of
  wrapped lines times the line height and the viewport height is the window height.
\<close>

theorem renderer_initial_scroll_offset:
  assumes r: "r = TextWindowRenderer_init measure_text app_width app_height new_panel text"
    and h0: "0 \<le> app_height" and h1: "app_height < 2 ^ 24"
    and c1: "int (length (wrapped_lines r)) * LINE_HEIGHT < 2 ^ 24"
  shows "offset_y (scroll_panel r) =
           (if rect_height (content_rect r) > rect_height (textarea_rect r)
            then - (rect_height (content_rect r) - rect_height (textarea_rect r)) else 0) \<and>
         rect_height (content_rect r) = int (length (wrapped_lines r)) * LINE_HEIGHT \<and>
         rect_height (textarea_rect r) = app_height"
proof -
  let ?n = "int (length (wrapped_lines r)) * LINE_HEIGHT"
  have n0: "0 \<le> ?n" by (simp add: LINE_HEIGHT_def)
  have th: "rect_height (textarea_rect r) = app_height"
    using h0 h1 by (simp add: r TextWindowRenderer_init_def Let_def Rectangle_def f32_small)
  have wl: "wrapped_lines r = wrap_text measure_text text FONT_SIZE
              (of_int (rect_width (Rectangle MARGIN 0 (app_width - MARGIN) app_height) - 20))"
    by (simp add: r TextWindowRenderer_init_def Let_def)
  have "rect_height (content_rect r) = f32 ?n"
    by (simp add: r TextWindowRenderer_init_def Let_def Rectangle_def)
  with n0 c1 have ch: "rect_height (content_rect r) = ?n" by (simp add: f32_small)
  have "offset_y (scroll_panel r) =
          f32 (- max (rect_height (content_rect r) - rect_height (textarea_rect r)) 0)"
    by (simp add: r TextWindowRenderer_init_def Let_def)
  then have off: "offset_y (scroll_panel r) = f32 (- max (?n - app_height) 0)"
    by (simp only: ch th)
  have "\<bar>- max (?n - app_height) 0\<bar> < 2 ^ 24" using n0 c1 h0 by (simp add: max_def)
  then have "f32 (- max (?n - app_height) 0) = - max (?n - app_height) 0" by (rule f32_exact)
  with off ch th show ?thesis by (simp add: max_def)
qed

theorem renderer_initial_scroll_offset_witness:
  "(0::int) \<le> 100 \<and> (100::int) < 2 ^ 24 \<and>
   wrapped_lines (TextWindowRenderer_init fixed_pitch_px 2160 100
       \<lparr>offset_x = 0, offset_y = 0\<rparr> (join_lines (replicate 3 ''a''))) = [''a'', ''a'', ''a''] \<and>
   rect_height (content_rect (TextWindowRenderer_init fixed_pitch_px 2160 100
       \<lparr>offset_x = 0, offset_y = 0\<rparr> (join_lines (replicate 3 ''a'')))) = 216 \<and>
   rect_height (textarea_rect (TextWindowRenderer_init fixed_pitch_px 2160 100
       \<lparr>offset_x = 0, offset_y = 0\<rparr> (join_lines (replicate 3 ''a'')))) = 100 \<and>
   offset_y (scroll_panel (TextWindowRenderer_init fixed_pitch_px 2160 100
       \<lparr>offset_x = 0, offset_y = 0\<rparr> (join_lines (replicate 3 ''a'')))) = - 116"
proof -
  let ?r = "TextWindowRenderer_init fixed_pitch_px 2160 100
       \<lparr>offset_x = 0, offset_y = 0\<rparr> (join_lines (replicate 3 ''a''))"
  have fit: "fixed_pitch_px ''a'' FONT_SIZE \<le> of_int (rect_width (Rectangle MARGIN 0 (2160 - MARGIN) 100) - 20)"
    by (simp add: fixed_pitch_px_def FONT_SIZE_def MARGIN_def Rectangle_def f32_small)
  have wl: "wrapped_lines ?r = replicate 3 ''a''"
    using fit by (simp add: TextWindowRenderer_init_def Let_def wrap_text_lines_of_a)
  then have wl3: "wrapped_lines ?r = [''a'', ''a'', ''a'']" by (simp add: numeral_3_eq_3)
  have h0: "(0::int) \<le> 100" and h1: "(100::int) < 2 ^ 24" by simp_all
  have c1: "int (length (wrapped_lines ?r)) * LINE_HEIGHT < 2 ^ 24"
    by (simp add: wl3 LINE_HEIGHT_def)
  from renderer_initial_scroll_offset [OF refl h0 h1 c1] wl3 h0 h1
  show ?thesis by (simp add: LINE_HEIGHT_def)
qed

section \<open>Leaving the render loop\<close>

text \<open>
  C9: when the worker opens the window, whatever the frames are (the stop event set, the
  frames used up, or \<open>render\<close> raising) its events are the window opening, the renderer,
  the frames rendered and then the window closing: the window is closed exactly once, as
  the last event before the worker finishes.
\<close>

theorem run_closes_window_once:
  "fst (TextWindow_run TextWindowRenderer None text frames) =
     InitWindow ''Text'' # RendererPublished # fst (render_loop frames) @ [CloseWindow] \<and>
   CloseWindow \<notin> set (fst (render_loop frames)) \<and>
   count_list (fst (TextWindow_run TextWindowRenderer None text frames)) CloseWindow = 1 \<and>
   last (fst (TextWindow_run TextWindowRenderer None text frames)) = CloseWindow"
proof -
  have b: "CloseWindow \<notin> set (fst (render_loop frames))"
    using render_loop_events [of frames] by auto
  then have c: "count_list (fst (render_loop frames)) CloseWindow = 0"
    by (simp add: count_list_0_iff)
  show ?thesis by (simp add: TextWindow_run_def case_prod_beta b c)
qed

section \<open>The headless session\<close>

text \<open>
  C8: when the environment variable is set, the worker returns with no event at all (no
  window opened, no renderer constructed or stored, no frame rendered). If the worker has
  run by some test \<open>d\<close> of the constructor's wait, the constructor returns, with the
  renderer field empty, the stop event clear and the worker finished; and \<open>close\<close> on
  that session returns it unchanged with no event (no join, so it does not block).
\<close>

theorem headless_session_is_inert:
  assumes ci: "ci_env = Some flag" and fair: "0 < sched d"
  shows "TextWindow_run TextWindowRenderer ci_env text frames = ([], None, None) \<and>
         (\<exists>w. TextWindow_init TextWindowRenderer ci_env frames sched text = Some w \<and>
              tw_text w = text \<and> tw_renderer w = None \<and> \<not> stop_event w \<and> \<not> thread_alive w \<and>
              TextWindow_close exits_in_time w = (w, []))"
proof -
  let ?res = "TextWindow_run TextWindowRenderer ci_env text frames"
  let ?obs = "\<lambda>i. worker_view ?res (sched i)"
  have run: "?res = ([], None, None)" using ci by (simp add: TextWindow_run_def)
  have obs: "?obs i = (None, sched i = 0)" for i by (simp add: run worker_view_def)
  have "\<not> (fst (?obs d) = None \<and> snd (?obs d))" using fair by (simp add: obs)
  from await_renderer_returns [of ?obs d 0, OF this]
  obtain k where k: "await_renderer ?obs 0 = Some k" "\<not> (fst (?obs k) = None \<and> snd (?obs k))"
    by blast
  from k(2) have dead: "\<not> snd (?obs k)" "fst (?obs k) = None" by (simp_all add: obs)
  let ?w = "\<lparr>tw_text = text, tw_renderer = fst (?obs k), stop_event = False,
             thread_alive = snd (?obs k)\<rparr>"
  have "TextWindow_init TextWindowRenderer ci_env frames sched text = Some ?w"
    using k(1) by (simp add: TextWindow_init_def Let_def)
  moreover have "TextWindow_close exits_in_time ?w = (?w, [])"
    using dead by (simp add: TextWindow_close_def)
  ultimately show ?thesis using run dead by simp
qed

theorem headless_session_is_inert_witness:
  "(0::nat) < Suc 0 \<and>
   TextWindow_run
      (TextWindowRenderer_init fixed_pitch_px 2160 1080 \<lparr>offset_x = 0, offset_y = 0\<rparr>)
      (Some ''1'') ''boom'' [Frame False False] = ([], None, None) \<and>
   (\<exists>w. TextWindow_init
      (TextWindowRenderer_init fixed_pitch_px 2160 1080 \<lparr>offset_x = 0, offset_y = 0\<rparr>)
      (Some ''1'') [Frame False False] Suc ''boom'' = Some w \<and>
      tw_text w = ''boom'' \<and> tw_renderer w = None \<and> \<not> stop_event w \<and> \<not> thread_alive w \<and>
      TextWindow_close False w = (w, []))"
proof -
  have h: "0 < Suc 0" by simp
  have c: "Some ''1'' = Some ''1''" by simp
  from headless_session_is_inert [where sched = Suc and d = 0 and flag = "''1''"
      and exits_in_time = False
      and TextWindowRenderer =
        "TextWindowRenderer_init fixed_pitch_px 2160 1080 \<lparr>offset_x = 0, offset_y = 0\<rparr>"
      and frames = "[Frame False False]", OF c h] h
  show ?thesis by blast
qed

section \<open>Closing a finished session\<close>

text \<open>
  C7: \<open>close\<close> on a session whose worker thread has finished (a session that was skipped
  under the headless flag, or one that was closed before) returns the session unchanged
  and does nothing: the stop event is not set again, the thread is not joined, no warning
  is printed. A second \<open>close\<close> does the same.
\<close>

theorem close_finished_session:
  assumes "\<not> thread_alive w"
  shows "TextWindow_close b w = (w, []) \<and>
         TextWindow_close b' (fst (TextWindow_close b w)) = (w, [])"
  using assms by (simp add: TextWindow_close_def)

theorem close_finished_session_witness:
  "\<not> thread_alive (fst (TextWindow_close True
        \<lparr>tw_text = ''boom'', tw_renderer = Some (0::nat), stop_event = False,
         thread_alive = True\<rparr>)) \<and>
   TextWindow_close True (fst (TextWindow_close True
        \<lparr>tw_text = ''boom'', tw_renderer = Some (0::nat), stop_event = False,
         thread_alive = True\<rparr>)) =
     (\<lparr>tw_text = ''boom'', tw_renderer = Some 0, stop_event = True, thread_alive = False\<rparr>, []) \<and>
   TextWindow_close False (fst (TextWindow_close True (fst (TextWindow_close True
        \<lparr>tw_text = ''boom'', tw_renderer = Some (0::nat), stop_event = False,
         thread_alive = True\<rparr>)))) =
     (\<lparr>tw_text = ''boom'', tw_renderer = Some 0, stop_event = True, thread_alive = False\<rparr>, [])"
proof -
  let ?w0 = "\<lparr>tw_text = ''boom'', tw_renderer = Some (0::nat), stop_event = False,
              thread_alive = True\<rparr>"
  let ?w = "fst (TextWindow_close True ?w0)"
  have w: "?w = \<lparr>tw_text = ''boom'', tw_renderer = Some 0, stop_event = True,
                  thread_alive = False\<rparr>"
    by (simp add: TextWindow_close_def)
  have h: "\<not> thread_alive ?w" by (simp add: w)
  from close_finished_session [OF h, of True False] h show ?thesis
    unfolding w by (simp add: TextWindow_close_def)
qed

end
